theory Spec2Isabelle
  imports Main
begin

section \<open>Python strings\<close>

text \<open>
  A Python \<open>str\<close> is a sequence of Unicode code points; \<open>len\<close>, indexing and
  slicing count code points. A text is therefore a list of code points (natural numbers),
  not a list of bytes. String literals of the source are ASCII and are written
  \<open>ascii ''...''\<close>.
\<close>

type_synonym pystr = "nat list"

definition ascii :: "string \<Rightarrow> pystr" where
  "ascii s = map of_char s"

text \<open>
  The character classes of the \<open>re\<close> module and of \<open>str.strip\<close> are decided by
  CPython's Unicode tables. On ASCII the tables are fixed and written out below; beyond
  ASCII they depend on the Unicode version the interpreter was built with, so the two
  predicates are parameters of the model:
  \<open>uni_alnum\<close> is \<open>Py_UNICODE_ISALNUM\<close> and \<open>uni_space\<close> is \<open>Py_UNICODE_ISSPACE\<close>,
  each consulted for code points from 128 on only.
\<close>

record unicode_db =
  uni_alnum :: "nat \<Rightarrow> bool"
  uni_space :: "nat \<Rightarrow> bool"

text \<open>\<open>\w\<close> of a \<open>str\<close> pattern: alphanumeric or the underscore.\<close>

definition is_word :: "unicode_db \<Rightarrow> nat \<Rightarrow> bool" where
  "is_word u c =
     (if c < 128
      then (48 \<le> c \<and> c \<le> 57) \<or> (65 \<le> c \<and> c \<le> 90) \<or> (97 \<le> c \<and> c \<le> 122) \<or> c = 95
      else uni_alnum u c)"

text \<open>
  \<open>str.isspace\<close> of one character. In ASCII: tab, line feed, vertical tab, form feed,
  carriage return (9 to 13), the four separators 28 to 31, and the space (32).
\<close>

definition is_space :: "unicode_db \<Rightarrow> nat \<Rightarrow> bool" where
  "is_space u c =
     (if c < 128 then (9 \<le> c \<and> c \<le> 13) \<or> (28 \<le> c \<and> c \<le> 32) else uni_space u c)"

text \<open>\<open>s.strip()\<close>: leading and trailing whitespace removed.\<close>

definition py_strip :: "unicode_db \<Rightarrow> pystr \<Rightarrow> pystr" where
  "py_strip u s = rev (dropWhile (is_space u) (rev (dropWhile (is_space u) s)))"

text \<open>
  \<open>s[i:j]\<close> with integer bounds: a negative bound counts from the end, and both bounds
  are clipped to \<open>0 .. len(s)\<close>.
\<close>

definition clip_index :: "nat \<Rightarrow> int \<Rightarrow> nat" where
  "clip_index n i = (if i < 0 then nat (max 0 (int n + i)) else min n (nat i))"

definition py_slice :: "'a list \<Rightarrow> int \<Rightarrow> int \<Rightarrow> 'a list" where
  "py_slice s i j =
     (let lo = clip_index (length s) i; hi = clip_index (length s) j
      in take (hi - lo) (drop lo s))"

section \<open>The regular expression engine\<close>

text \<open>
  The fragment of \<open>re\<close> that the pattern \<^verbatim>\<open>\$([A-Z]{3,10})\b\<close> uses, named after the
  opcodes \<open>sre_parse\<close> gives it: a literal character, a character range, the assertion
  \<^verbatim>\<open>\b\<close>, a numbered capturing group, a greedy bounded repetition, and sequencing.
\<close>

datatype regex =
    Literal nat
  | In_range nat nat
  | At_boundary
  | Subpattern nat regex
  | Max_repeat nat nat regex
  | Seq regex regex

text \<open>The captures of a match attempt: group number and span, the latest first.\<close>

type_synonym captures = "(nat \<times> nat \<times> nat) list"

text \<open>
  \<^verbatim>\<open>\b\<close> holds at position \<open>i\<close> when exactly one of the characters before and after
  \<open>i\<close> is a word character; the ends of the text count as non-word.
\<close>

definition at_boundary :: "unicode_db \<Rightarrow> pystr \<Rightarrow> nat \<Rightarrow> bool" where
  "at_boundary u t i =
     (let thatp = (i < length t \<and> is_word u (t ! i));
          thisp = (0 < i \<and> i \<le> length t \<and> is_word u (t ! (i - 1)))
      in thisp \<noteq> thatp)"

text \<open>
  Backtracking as a list of successes: \<open>re_match u t r (i, g)\<close> lists every way \<open>r\<close>
  matches \<open>t\<close> from position \<open>i\<close> with captures \<open>g\<close>, as end position and captures,
  in the order in which the engine tries them. A greedy repetition tries one more
  iteration before it tries to stop.
\<close>

fun regex_weight :: "regex \<Rightarrow> nat" where
  "regex_weight (Literal c) = 1"
| "regex_weight (In_range a b) = 1"
| "regex_weight At_boundary = 1"
| "regex_weight (Subpattern k r) = Suc (regex_weight r)"
| "regex_weight (Max_repeat lo hi r) = Suc (hi + regex_weight r)"
| "regex_weight (Seq r1 r2) = Suc (regex_weight r1 + regex_weight r2)"

function re_match :: "unicode_db \<Rightarrow> pystr \<Rightarrow> regex \<Rightarrow> nat \<times> captures \<Rightarrow> (nat \<times> captures) list" where
  "re_match u t (Literal c) (i, g) =
     (if i < length t \<and> t ! i = c then [(Suc i, g)] else [])"
| "re_match u t (In_range a b) (i, g) =
     (if i < length t \<and> a \<le> t ! i \<and> t ! i \<le> b then [(Suc i, g)] else [])"
| "re_match u t At_boundary (i, g) =
     (if at_boundary u t i then [(i, g)] else [])"
| "re_match u t (Subpattern k r) (i, g) =
     map (\<lambda>(j, g'). (j, (k, i, j) # g')) (re_match u t r (i, g))"
| "re_match u t (Max_repeat lo 0 r) s =
     (if lo = 0 then [s] else [])"
| "re_match u t (Max_repeat lo (Suc hi) r) s =
     concat (map (re_match u t (Max_repeat (lo - 1) hi r)) (re_match u t r s))
     @ (if lo = 0 then [s] else [])"
| "re_match u t (Seq r1 r2) s =
     concat (map (re_match u t r2) (re_match u t r1 s))"
  by pat_completeness auto
termination
  by (relation "measure (\<lambda>(u, t, r, s). regex_weight r)") auto

text \<open>A match object: \<open>start()\<close>, \<open>end()\<close> and the spans of its groups.\<close>

record rmatch =
  m_start :: nat
  m_end :: nat
  m_groups :: captures

text \<open>
  \<open>m.group(k)\<close>: the text of group \<open>k\<close>, or \<open>None\<close> when the group took no part in
  the match.
\<close>

definition m_group :: "pystr \<Rightarrow> rmatch \<Rightarrow> nat \<Rightarrow> pystr option" where
  "m_group t m k =
     (case map_of (m_groups m) k of
        None \<Rightarrow> None
      | Some (a, b) \<Rightarrow> Some (take (b - a) (drop a t)))"

text \<open>
  The search loop: the candidate start positions are tried left to right, and at each
  one the first success of the backtracking wins. \<open>adv\<close> is the scanner's
  \<open>must_advance\<close> flag: set after an empty match, it refuses an empty match at the
  first candidate only.
\<close>

fun first_match :: "unicode_db \<Rightarrow> regex \<Rightarrow> pystr \<Rightarrow> bool \<Rightarrow> nat list \<Rightarrow> rmatch option" where
  "first_match u r t adv [] = None"
| "first_match u r t adv (s # ss) =
     (case filter (\<lambda>(e, g). \<not> (adv \<and> e = s)) (re_match u t r (s, [])) of
        [] \<Rightarrow> first_match u r t False ss
      | (e, g) # _ \<Rightarrow> Some \<lparr>m_start = s, m_end = e, m_groups = g\<rparr>)"

definition re_search :: "unicode_db \<Rightarrow> regex \<Rightarrow> pystr \<Rightarrow> nat \<Rightarrow> bool \<Rightarrow> rmatch option" where
  "re_search u r t pos adv = first_match u r t adv [pos ..< Suc (length t)]"

text \<open>
  \<open>re.finditer\<close>: search, yield the match, and search again from its end. After an
  empty match the next search starts at the same position with \<open>must_advance\<close> set.
\<close>

function re_finditer_from :: "unicode_db \<Rightarrow> regex \<Rightarrow> pystr \<Rightarrow> nat \<Rightarrow> bool \<Rightarrow> rmatch list" where
  "re_finditer_from u r t pos adv =
     (case re_search u r t pos adv of
        None \<Rightarrow> []
      | Some m \<Rightarrow> m # re_finditer_from u r t (m_end m) (m_end m = m_start m))"
  by pat_completeness auto

text \<open>
  Termination of the scan: a match never ends before it starts, a match is found at or
  after the position the search started from, and an empty match is refused where the
  previous one was empty.
\<close>

lemma re_match_end_ge: "x \<in> set (re_match u t r s) \<Longrightarrow> fst s \<le> fst x"
proof (induction u t r s arbitrary: x rule: re_match.induct)
  case (4 u t k r i g)
  from "4.prems" obtain y where y: "y \<in> set (re_match u t r (i, g))" "fst x = fst y"
    by (auto simp: case_prod_beta)
  from "4.IH"[OF y(1)] y(2) show ?case by simp
next
  case (6 u t lo hi r s)
  from "6.prems" consider
      (step) y where "y \<in> set (re_match u t r s)"
        "x \<in> set (re_match u t (Max_repeat (lo - 1) hi r) y)"
    | (stop) "x = s"
    by (auto split: if_splits)
  then show ?case
  proof cases
    case step
    from "6.IH"(1)[OF step(1)] "6.IH"(2)[OF step] show ?thesis by simp
  next
    case stop
    then show ?thesis by simp
  qed
next
  case (7 u t r1 r2 s)
  from "7.prems" obtain y where y: "y \<in> set (re_match u t r1 s)" "x \<in> set (re_match u t r2 y)"
    by auto
  from "7.IH"(1)[OF y(1)] "7.IH"(2)[OF y] show ?case by simp
qed (simp_all split: if_splits)

lemma first_match_Some:
  "first_match u r t adv ss = Some m \<Longrightarrow>
     m_start m \<in> set ss \<and> m_start m \<le> m_end m \<and>
     (adv \<and> m_start m = hd ss \<and> distinct ss \<longrightarrow> m_end m \<noteq> m_start m)"
proof (induction ss arbitrary: adv)
  case Nil
  then show ?case by simp
next
  case (Cons s ss)
  show ?case
  proof (cases "filter (\<lambda>(e, g). \<not> (adv \<and> e = s)) (re_match u t r (s, []))")
    case Nil
    with Cons.prems have "first_match u r t False ss = Some m" by simp
    from Cons.IH[OF this] show ?thesis by auto
  next
    case (Cons x xs)
    obtain e g where x: "x = (e, g)" by (cases x)
    from Cons x Cons.prems have m: "m = \<lparr>m_start = s, m_end = e, m_groups = g\<rparr>" by simp
    have "x \<in> set (filter (\<lambda>(e, g). \<not> (adv \<and> e = s)) (re_match u t r (s, [])))"
      using Cons by simp
    then have mem: "(e, g) \<in> set (re_match u t r (s, []))" and na: "\<not> (adv \<and> e = s)"
      using x by auto
    from re_match_end_ge[OF mem] have "s \<le> e" by simp
    with m na show ?thesis by auto
  qed
qed

termination re_finditer_from
proof (relation "measure (\<lambda>(u, r, t, pos, adv). 2 * (Suc (length t) - pos) + (if adv then 0 else 1))")
  show "wf (measure (\<lambda>(u, r, t, pos, adv). 2 * (Suc (length t) - pos) + (if adv then 0 else 1)))"
    by simp
next
  fix u r t pos adv m
  assume "re_search u r t pos adv = Some m"
  then have fm: "first_match u r t adv [pos ..< Suc (length t)] = Some m"
    by (simp add: re_search_def)
  from first_match_Some[OF fm]
  have 1: "pos \<le> m_start m" "m_start m \<le> length t" "m_start m \<le> m_end m"
    and 2: "adv \<and> m_start m = hd [pos ..< Suc (length t)] \<longrightarrow> m_end m \<noteq> m_start m"
    by auto
  from 1 have "hd [pos ..< Suc (length t)] = pos" by (simp add: upt_rec)
  with 2 have 3: "adv \<and> m_start m = pos \<longrightarrow> m_end m \<noteq> m_start m" by simp
  from 1 3
  show "((u, r, t, m_end m, m_end m = m_start m), (u, r, t, pos, adv))
          \<in> measure (\<lambda>(u, r, t, pos, adv). 2 * (Suc (length t) - pos) + (if adv then 0 else 1))"
    by (auto split: if_splits)
qed

definition re_finditer :: "unicode_db \<Rightarrow> regex \<Rightarrow> pystr \<Rightarrow> rmatch list" where
  "re_finditer u r t = re_finditer_from u r t 0 False"

section \<open>The mention extractor\<close>

text \<open>
  \<^verbatim>\<open>token_pattern = r'\$([A-Z]{3,10})\b'\<close>: the dollar sign (code point 36), group 1 holding
  three to ten characters of the range \<open>A\<close> (65) to \<open>Z\<close> (90), greedy, and a word
  boundary.
\<close>

definition token_pattern :: regex where
  "token_pattern =
     Seq (Literal 36) (Seq (Subpattern 1 (Max_repeat 3 10 (In_range 65 90))) At_boundary)"

text \<open>
  The dictionary \<^verbatim>\<open>{'token': token, 'context': context}\<close>. \<open>match.group(1)\<close> is a
  \<open>str\<close> or \<open>None\<close>.
\<close>

record mention =
  mention_token :: "pystr option"
  mention_context :: pystr

text \<open>
  The window of a match before trimming: \<^verbatim>\<open>text[start:end]\<close> with
  \<^verbatim>\<open>start = max(0, match.start() - 100)\<close> and \<^verbatim>\<open>end = min(len(text), match.end() + 100)\<close>.
\<close>

definition context_window :: "pystr \<Rightarrow> rmatch \<Rightarrow> pystr" where
  "context_window t m =
     (let start = max 0 (int (m_start m) - 100);
          end = min (int (length t)) (int (m_end m) + 100)
      in py_slice t start end)"

text \<open>
  The object \<open>self\<close>: the credential, the list identifier and the base URL that
  \<^verbatim>\<open>__init__\<close> stores. The request headers are computed from the credential, and the
  logger is the process-wide one.
\<close>

record scraper =
  bearer_token :: pystr
  list_id :: pystr
  base_url :: pystr

definition init_scraper :: "pystr \<Rightarrow> pystr \<Rightarrow> scraper" where
  "init_scraper bearer lid =
     \<lparr>bearer_token = bearer, list_id = lid, base_url = ascii ''https://api.twitter.com/2''\<rparr>"

definition extract_token_mentions :: "unicode_db \<Rightarrow> scraper \<Rightarrow> pystr \<Rightarrow> mention list" where
  "extract_token_mentions u self t =
     map (\<lambda>m. \<lparr>mention_token = m_group t m 1,
                mention_context = py_strip u (context_window t m)\<rparr>)
       (re_finditer u token_pattern t)"

section \<open>Values, exceptions and the world\<close>

text \<open>
  What \<open>response.json()\<close> returns: a JSON document as Python builds it. The program
  never inspects a number, so integers stand for all numbers. An object is the list of its
  items in order, its keys distinct.
\<close>

datatype json =
    JNull
  | JBool bool
  | JNum int
  | JStr pystr
  | JArr "json list"
  | JObj "(pystr \<times> json) list"

text \<open>
  The exceptions that can travel through the program. \<open>RequestException\<close> stands for
  \<open>requests.RequestException\<close> and each of its subclasses but \<open>HTTPError\<close>, with the
  text of the exception; \<open>HTTPError\<close>, the subclass that \<open>raise_for_status\<close> raises,
  carries the status code. The clause \<^verbatim>\<open>except requests.RequestException\<close> catches these
  two and nothing else.
\<close>

datatype exc =
    RequestException pystr
  | HTTPError nat
  | KeyError pystr
  | TypeError
  | AttributeError
  | ValueError

fun is_request_exception :: "exc \<Rightarrow> bool" where
  "is_request_exception (RequestException msg) = True"
| "is_request_exception (HTTPError code) = True"
| "is_request_exception e = False"

text \<open>
  A response: its status code and what \<open>response.json()\<close> does, which is to return the
  parsed body or to raise (which exception a body that does not parse raises depends on
  the version of \<open>requests\<close>, so the response says it).
\<close>

record response =
  status_code :: nat
  json_result :: "exc + json"

text \<open>\<open>response.raise_for_status()\<close>: \<open>HTTPError\<close> for a status from 400 to 599.\<close>

definition raise_for_status :: "response \<Rightarrow> exc + unit" where
  "raise_for_status resp =
     (if 400 \<le> status_code resp \<and> status_code resp < 600
      then Inl (HTTPError (status_code resp)) else Inr ())"

text \<open>
  A call of \<open>requests.get\<close>: the endpoint (the list's members, or the posts of a user),
  the base URL, the \<open>Authorization\<close> header, and for the posts the \<open>start_time\<close>
  parameter (as seconds, before it is formatted; \<open>max_results\<close> and
  \<open>tweet.fields\<close> are constants).
\<close>

datatype endpoint = Lists_members pystr | Users_tweets json

record request =
  req_base :: pystr
  req_endpoint :: endpoint
  req_authorization :: pystr
  req_start_time :: "int option"

datatype level = INFO | WARNING | ERROR

text \<open>The messages the program logs, each with the values its f-string interpolates.\<close>

datatype log_message =
    Error_fetching_list_members exc
  | Error_fetching_tweets json exc
  | Scraping_tweets json
  | Mentions_saved pystr
  | No_token_mentions

text \<open>A Python dictionary with string keys: its items in insertion order.\<close>

type_synonym pydict = "(pystr \<times> json) list"

text \<open>
  Everything outside the program that it reads or changes: the clock (seconds), the
  upstream API as the answer to the first, second, ... call of \<open>requests.get\<close>, the
  calls made so far, the log, and the files written, each as the rows handed to the CSV
  writer (the header first; the bytes of the file are the \<open>csv\<close> module's rendering of
  these rows).
\<close>

record world =
  clock :: int
  upstream :: "nat \<Rightarrow> exc + response"
  sent :: "request list"
  log :: "(level \<times> log_message) list"
  files :: "pystr \<Rightarrow> json list list option"

definition requests_get :: "request \<Rightarrow> world \<Rightarrow> (exc + response) \<times> world" where
  "requests_get rq w = (upstream w (length (sent w)), w\<lparr>sent := sent w @ [rq]\<rparr>)"

definition log_at :: "level \<Rightarrow> log_message \<Rightarrow> world \<Rightarrow> world" where
  "log_at lv msg w = w\<lparr>log := log w @ [(lv, msg)]\<rparr>"

definition sleep :: "int \<Rightarrow> world \<Rightarrow> world" where
  "sleep secs w = w\<lparr>clock := clock w + secs\<rparr>"

subsection \<open>Python operations on JSON values\<close>

text \<open>\<open>x[key]\<close> with a string key.\<close>

fun py_getitem :: "json \<Rightarrow> pystr \<Rightarrow> exc + json" where
  "py_getitem (JObj kvs) k = (case map_of kvs k of None \<Rightarrow> Inl (KeyError k) | Some v \<Rightarrow> Inr v)"
| "py_getitem x k = Inl TypeError"

text \<open>\<open>x.get(key, default)\<close>: only a dictionary has the method.\<close>

fun py_get :: "json \<Rightarrow> pystr \<Rightarrow> json \<Rightarrow> exc + json" where
  "py_get (JObj kvs) k d = Inr (case map_of kvs k of None \<Rightarrow> d | Some v \<Rightarrow> v)"
| "py_get x k d = Inl AttributeError"

text \<open>
  \<open>for x in v\<close>: the elements of a list, the characters of a string, the keys of a
  dictionary; anything else is not iterable.
\<close>

fun py_iter :: "json \<Rightarrow> exc + json list" where
  "py_iter (JArr xs) = Inr xs"
| "py_iter (JStr s) = Inr (map (\<lambda>c. JStr [c]) s)"
| "py_iter (JObj kvs) = Inr (map (\<lambda>kv. JStr (fst kv)) kvs)"
| "py_iter x = Inl TypeError"

text \<open>A loop that builds a list and stops at the first exception.\<close>

fun map_exc :: "('a \<Rightarrow> exc + 'b) \<Rightarrow> 'a list \<Rightarrow> exc + 'b list" where
  "map_exc f [] = Inr []"
| "map_exc f (x # xs) =
     (case f x of
        Inl e \<Rightarrow> Inl e
      | Inr y \<Rightarrow> (case map_exc f xs of Inl e \<Rightarrow> Inl e | Inr ys \<Rightarrow> Inr (y # ys)))"

section \<open>The member lister\<close>

text \<open>
  Lines 52 to 55 of \<open>get_list_members\<close>, the body of the \<open>try\<close> after the call:
  the status check, \<^verbatim>\<open>response.json().get('data', [])\<close> and the list comprehension
  \<^verbatim>\<open>[member['id'] for member in members]\<close>.
\<close>

definition members_of_response :: "response \<Rightarrow> exc + json list" where
  "members_of_response resp =
     (case raise_for_status resp of
        Inl e \<Rightarrow> Inl e
      | Inr _ \<Rightarrow>
          (case json_result resp of
             Inl e \<Rightarrow> Inl e
           | Inr body \<Rightarrow>
               (case py_get body (ascii ''data'') (JArr []) of
                  Inl e \<Rightarrow> Inl e
                | Inr members \<Rightarrow>
                    (case py_iter members of
                       Inl e \<Rightarrow> Inl e
                     | Inr ms \<Rightarrow> map_exc (\<lambda>member. py_getitem member (ascii ''id'')) ms))))"

text \<open>
  \<open>get_list_members\<close>: the call, the body, and the handler, which logs an error and
  returns the empty list for a \<open>RequestException\<close> and lets every other exception go.
\<close>

definition get_list_members :: "scraper \<Rightarrow> world \<Rightarrow> (exc + json list) \<times> world" where
  "get_list_members self w =
     (let rq = \<lparr>req_base = base_url self, req_endpoint = Lists_members (list_id self),
                req_authorization = ascii ''Bearer '' @ bearer_token self,
                req_start_time = None\<rparr>;
          (r, w1) = requests_get rq w
      in case (case r of Inl e \<Rightarrow> Inl e | Inr resp \<Rightarrow> members_of_response resp) of
           Inr ids \<Rightarrow> (Inr ids, w1)
         | Inl e \<Rightarrow>
             if is_request_exception e
             then (Inr [], log_at ERROR (Error_fetching_list_members e) w1)
             else (Inl e, w1))"

section \<open>The post fetcher\<close>

text \<open>\<open>mention['token']\<close> as a value of a record: a string, or \<open>None\<close>.\<close>

definition token_value :: "pystr option \<Rightarrow> json" where
  "token_value tok = (case tok of None \<Rightarrow> JNull | Some s \<Rightarrow> JStr s)"

text \<open>
  The records of one post (lines 118 to 128): \<^verbatim>\<open>tweet['text']\<close> is read and scanned (the
  scan raises \<open>TypeError\<close> for anything but a string); then, for each mention,
  \<^verbatim>\<open>tweet['id']\<close> and \<^verbatim>\<open>tweet['created_at']\<close> are read and the record is built.
\<close>

definition mention_record :: "json \<Rightarrow> json \<Rightarrow> mention \<Rightarrow> exc + pydict" where
  "mention_record user_id tweet m =
     (case py_getitem tweet (ascii ''id'') of
        Inl e \<Rightarrow> Inl e
      | Inr tweet_id \<Rightarrow>
          (case py_getitem tweet (ascii ''created_at'') of
             Inl e \<Rightarrow> Inl e
           | Inr created_at \<Rightarrow>
               Inr [(ascii ''user_id'', user_id),
                    (ascii ''tweet_id'', tweet_id),
                    (ascii ''created_at'', created_at),
                    (ascii ''token'', token_value (mention_token m)),
                    (ascii ''narrative'', JStr (mention_context m))]))"

definition tweet_records :: "unicode_db \<Rightarrow> scraper \<Rightarrow> json \<Rightarrow> json \<Rightarrow> exc + pydict list" where
  "tweet_records u self user_id tweet =
     (case py_getitem tweet (ascii ''text'') of
        Inl e \<Rightarrow> Inl e
      | Inr (JStr s) \<Rightarrow>
          (let token_mentions = extract_token_mentions u self s
           in if token_mentions \<noteq> []
              then map_exc (mention_record user_id tweet) token_mentions
              else Inr [])
      | Inr _ \<Rightarrow> Inl TypeError)"

text \<open>The loop over the posts: the records of each post are appended in turn.\<close>

fun tweets_records :: "unicode_db \<Rightarrow> scraper \<Rightarrow> json \<Rightarrow> json list \<Rightarrow> exc + pydict list" where
  "tweets_records u self user_id [] = Inr []"
| "tweets_records u self user_id (tweet # tweets) =
     (case tweet_records u self user_id tweet of
        Inl e \<Rightarrow> Inl e
      | Inr rs \<Rightarrow>
          (case tweets_records u self user_id tweets of
             Inl e \<Rightarrow> Inl e
           | Inr rest \<Rightarrow> Inr (rs @ rest)))"

text \<open>Lines 112 to 130 of \<open>get_user_tweets\<close>, the body of the \<open>try\<close> after the call.\<close>

definition tweets_of_response :: "unicode_db \<Rightarrow> scraper \<Rightarrow> json \<Rightarrow> response \<Rightarrow> exc + pydict list" where
  "tweets_of_response u self user_id resp =
     (case raise_for_status resp of
        Inl e \<Rightarrow> Inl e
      | Inr _ \<Rightarrow>
          (case json_result resp of
             Inl e \<Rightarrow> Inl e
           | Inr body \<Rightarrow>
               (case py_get body (ascii ''data'') (JArr []) of
                  Inl e \<Rightarrow> Inl e
                | Inr tweets_data \<Rightarrow>
                    (case py_iter tweets_data of
                       Inl e \<Rightarrow> Inl e
                     | Inr tweets \<Rightarrow> tweets_records u self user_id tweets))))"

text \<open>
  \<open>get_user_tweets\<close>: \<open>start_time\<close> is the clock minus \<open>days\<close> days; then the call,
  the body, and the handler as in \<open>get_list_members\<close>.
\<close>

definition get_user_tweets ::
  "unicode_db \<Rightarrow> scraper \<Rightarrow> json \<Rightarrow> int \<Rightarrow> world \<Rightarrow> (exc + pydict list) \<times> world" where
  "get_user_tweets u self user_id days w =
     (let start_time = clock w - days * 86400;
          rq = \<lparr>req_base = base_url self, req_endpoint = Users_tweets user_id,
                req_authorization = ascii ''Bearer '' @ bearer_token self,
                req_start_time = Some start_time\<rparr>;
          (r, w1) = requests_get rq w
      in case (case r of Inl e \<Rightarrow> Inl e | Inr resp \<Rightarrow> tweets_of_response u self user_id resp) of
           Inr token_tweets \<Rightarrow> (Inr token_tweets, w1)
         | Inl e \<Rightarrow>
             if is_request_exception e
             then (Inr [], log_at ERROR (Error_fetching_tweets user_id e) w1)
             else (Inl e, w1))"

section \<open>The pipeline coordinator\<close>

text \<open>
  The loop of \<open>scrape_list_tokens\<close> over the members (lines 149 to 156): log, sleep
  one second, fetch with the default of 7 days, extend the accumulator.
\<close>

fun scrape_members ::
  "unicode_db \<Rightarrow> scraper \<Rightarrow> json list \<Rightarrow> pydict list \<Rightarrow> world \<Rightarrow> (exc + pydict list) \<times> world" where
  "scrape_members u self [] acc w = (Inr acc, w)"
| "scrape_members u self (user_id # rest) acc w =
     (let w1 = log_at INFO (Scraping_tweets user_id) w;
          w2 = sleep 1 w1;
          (r, w3) = get_user_tweets u self user_id 7 w2
      in case r of
           Inl e \<Rightarrow> (Inl e, w3)
         | Inr user_tweets \<Rightarrow> scrape_members u self rest (acc @ user_tweets) w3)"

text \<open>
  \<open>csv.DictWriter\<close> with the defaults \<open>restval = ''\<close> and \<open>extrasaction = 'raise'\<close>:
  a row with a key that is no field name raises \<open>ValueError\<close>; otherwise the row is the
  value of each field name in order, the empty string where the row has none.
\<close>

definition dict_to_list :: "pystr list \<Rightarrow> pydict \<Rightarrow> exc + json list" where
  "dict_to_list fieldnames rowdict =
     (if list_ex (\<lambda>k. k \<notin> set fieldnames) (map fst rowdict)
      then Inl ValueError
      else Inr (map (\<lambda>k. case map_of rowdict k of None \<Rightarrow> JStr [] | Some v \<Rightarrow> v) fieldnames))"

text \<open>
  \<open>writerows\<close>: the rows are converted and written one by one, so the rows before a row
  that raises are in the file.
\<close>

fun writerows :: "pystr list \<Rightarrow> pydict list \<Rightarrow> json list list \<Rightarrow> (exc + unit) \<times> json list list" where
  "writerows fieldnames [] written = (Inr (), written)"
| "writerows fieldnames (rowdict # rows) written =
     (case dict_to_list fieldnames rowdict of
        Inl e \<Rightarrow> (Inl e, written)
      | Inr row \<Rightarrow> writerows fieldnames rows (written @ [row]))"

text \<open>
  Lines 159 to 168: with a non-empty accumulator the file is opened for writing, which
  empties it, the header and the rows are written, and the file is closed whether or not
  a row raised; with an empty one a warning is logged. Opening the file is taken to
  succeed.
\<close>

definition write_mentions :: "pystr \<Rightarrow> pydict list \<Rightarrow> world \<Rightarrow> (exc + unit) \<times> world" where
  "write_mentions output_file all_token_mentions w =
     (if all_token_mentions \<noteq> []
      then
        (let keys = map fst (hd all_token_mentions);
             (r, written) = writerows keys all_token_mentions [map JStr keys];
             w1 = w\<lparr>files := (files w)(output_file \<mapsto> written)\<rparr>
         in case r of
              Inl e \<Rightarrow> (Inl e, w1)
            | Inr _ \<Rightarrow> (Inr (), log_at INFO (Mentions_saved output_file) w1))
      else (Inr (), log_at WARNING No_token_mentions w))"

definition scrape_list_tokens ::
  "unicode_db \<Rightarrow> scraper \<Rightarrow> pystr \<Rightarrow> world \<Rightarrow> (exc + unit) \<times> world" where
  "scrape_list_tokens u self output_file w =
     (let (r, w1) = get_list_members self w
      in case r of
           Inl e \<Rightarrow> (Inl e, w1)
         | Inr list_members \<Rightarrow>
             (let (r2, w2) = scrape_members u self list_members [] w1
              in case r2 of
                   Inl e \<Rightarrow> (Inl e, w2)
                 | Inr all_token_mentions \<Rightarrow> write_mentions output_file all_token_mentions w2))"


section \<open>The pattern in the words of the specification\<close>

text \<open>An uppercase Latin letter: \<open>A\<close> (65) to \<open>Z\<close> (90).\<close>

definition is_upper :: "nat \<Rightarrow> bool" where
  "is_upper c = (65 \<le> c \<and> c \<le> 90)"

text \<open>
  \<open>mention_at u t s n\<close>: at position \<open>s\<close> of \<open>t\<close> stands a dollar sign followed by
  \<open>n\<close> uppercase Latin letters, \<open>n\<close> between 3 and 10, and the character after them,
  if there is one, is not a word character.
\<close>

definition mention_at :: "unicode_db \<Rightarrow> pystr \<Rightarrow> nat \<Rightarrow> nat \<Rightarrow> bool" where
  "mention_at u t s n =
     (s < length t \<and> t ! s = 36 \<and> 3 \<le> n \<and> n \<le> 10 \<and> Suc s + n \<le> length t \<and>
      list_all is_upper (take n (drop (Suc s) t)) \<and>
      \<not> (Suc s + n < length t \<and> is_word u (t ! (Suc s + n))))"

text \<open>
  The occurrences of the pattern that start at position \<open>s\<close>, and every occurrence of
  the pattern in \<open>t\<close> from left to right, each as start position and number of letters.
\<close>

definition mentions_at :: "unicode_db \<Rightarrow> pystr \<Rightarrow> nat \<Rightarrow> nat list" where
  "mentions_at u t s = filter (mention_at u t s) [3 ..< 11]"

definition occurrences :: "unicode_db \<Rightarrow> pystr \<Rightarrow> (nat \<times> nat) list" where
  "occurrences u t =
     concat (map (\<lambda>s. map (\<lambda>n. (s, n)) (mentions_at u t s)) [0 ..< length t])"

text \<open>The length of the run of uppercase letters that starts at position \<open>i\<close>.\<close>

definition upper_run :: "pystr \<Rightarrow> nat \<Rightarrow> nat" where
  "upper_run t i = length (takeWhile is_upper (drop i t))"

text \<open>
  The match object of an occurrence: the match spans the dollar sign and the letters,
  group 1 spans the letters.
\<close>

definition token_match :: "nat \<Rightarrow> nat \<Rightarrow> rmatch" where
  "token_match s n = \<lparr>m_start = s, m_end = Suc s + n, m_groups = [(1, Suc s, Suc s + n)]\<rparr>"

section \<open>What the pattern matches\<close>

text \<open>
  The greedy repetition of the letter class offers every count from the bound (or the
  length of the run, if shorter) down to the minimum; the word boundary then holds at
  the end of the run only. So the pattern matches at \<open>s\<close> in at most one way, and
  exactly where \<open>mention_at\<close> holds.
\<close>

lemma upper_run_step:
  "upper_run t i = (if i < length t \<and> is_upper (t ! i) then Suc (upper_run t (Suc i)) else 0)"
proof (cases "i < length t")
  case True
  then have "drop i t = t ! i # drop (Suc i) t" by (simp add: Cons_nth_drop_Suc)
  then show ?thesis using True by (simp add: upper_run_def)
next
  case False
  then show ?thesis by (simp add: upper_run_def)
qed

lemma rev_upt_shift:
  "map (\<lambda>k. f (Suc k)) (rev [lo - 1 ..< Suc n]) @ (if lo = 0 then [f 0] else [])
     = map f (rev [lo ..< Suc (Suc n)])"
proof (cases lo)
  case 0
  have "[0 ..< Suc (Suc n)] = 0 # map Suc [0 ..< Suc n]"
    by (simp only: map_Suc_upt upt_conv_Cons[of 0 "Suc (Suc n)"])
  then show ?thesis using 0 by (simp add: rev_map comp_def del: upt_Suc)
next
  case (Suc l)
  have "[Suc l ..< Suc (Suc n)] = map Suc [l ..< Suc n]"
    by (simp only: map_Suc_upt)
  then show ?thesis using Suc by (simp add: rev_map comp_def del: upt_Suc)
qed

lemma rev_upt_shift_pos:
  "map (\<lambda>k. (Suc i + k, g)) (rev [lo - 1 ..< Suc n]) @ (if lo = 0 then [(i, g)] else [])
     = map (\<lambda>k. (i + k, g)) (rev [lo ..< Suc (Suc n)])"
  using rev_upt_shift[of "\<lambda>k. (i + k, g)" lo n] by (cases "lo = 0") (simp_all del: upt_Suc)

lemma re_match_repeat_upper:
  "re_match u t (Max_repeat lo hi (In_range 65 90)) (i, g)
     = map (\<lambda>k. (i + k, g)) (rev [lo ..< Suc (min hi (upper_run t i))])"
proof (induction hi arbitrary: lo i)
  case 0
  then show ?case by simp
next
  case (Suc hi)
  show ?case
  proof (cases "i < length t \<and> is_upper (t ! i)")
    case True
    then have one: "re_match u t (In_range 65 90) (i, g) = [(Suc i, g)]"
      by (simp add: is_upper_def)
    from True have run: "upper_run t i = Suc (upper_run t (Suc i))"
      by (subst upper_run_step) simp
    have "re_match u t (Max_repeat lo (Suc hi) (In_range 65 90)) (i, g)
            = map (\<lambda>k. (Suc i + k, g)) (rev [lo - 1 ..< Suc (min hi (upper_run t (Suc i)))])
              @ (if lo = 0 then [(i, g)] else [])"
      using True by (simp add: is_upper_def Suc.IH del: upt_Suc)
    also have "\<dots> = map (\<lambda>k. (i + k, g)) (rev [lo ..< Suc (Suc (min hi (upper_run t (Suc i))))])"
      by (rule rev_upt_shift_pos)
    finally show ?thesis by (simp add: run del: upt_Suc)
  next
    case False
    then have none: "re_match u t (In_range 65 90) (i, g) = []"
      by (auto simp: is_upper_def)
    from False have run: "upper_run t i = 0"
      by (subst upper_run_step) simp
    show ?thesis using False by (auto simp: is_upper_def run)
  qed
qed

lemma upper_run_le: "upper_run t i \<le> length t - i"
  unfolding upper_run_def using length_takeWhile_le[of is_upper "drop i t"] by simp

lemma upper_run_nth:
  assumes "k < upper_run t i"
  shows "i + k < length t \<and> is_upper (t ! (i + k))"
proof -
  from assms upper_run_le[of t i] have in_range: "i + k < length t" by simp
  from assms have k: "k < length (takeWhile is_upper (drop i t))" by (simp add: upper_run_def)
  then have "takeWhile is_upper (drop i t) ! k \<in> set (takeWhile is_upper (drop i t))"
    by (rule nth_mem)
  then have "is_upper (takeWhile is_upper (drop i t) ! k)" by (rule set_takeWhileD[THEN conjunct2])
  moreover from k have "takeWhile is_upper (drop i t) ! k = drop i t ! k" by (rule takeWhile_nth)
  moreover from in_range have "drop i t ! k = t ! (i + k)" by simp
  ultimately show ?thesis using in_range by simp
qed

lemma upper_run_stop:
  assumes "i + upper_run t i < length t"
  shows "\<not> is_upper (t ! (i + upper_run t i))"
proof -
  from assms have "length (takeWhile is_upper (drop i t)) < length (drop i t)"
    by (simp add: upper_run_def)
  then have "\<not> is_upper (drop i t ! length (takeWhile is_upper (drop i t)))"
    by (rule nth_length_takeWhile)
  moreover from assms have "drop i t ! upper_run t i = t ! (i + upper_run t i)" by simp
  ultimately show ?thesis by (simp add: upper_run_def)
qed

lemma is_upper_word: "is_upper c \<Longrightarrow> is_word u c"
  by (simp add: is_upper_def is_word_def)

lemma is_upper_not_dollar: "is_upper c \<Longrightarrow> c \<noteq> 36"
  by (auto simp: is_upper_def)

lemma boundary_in_run:
  assumes "0 < k" "k \<le> upper_run t i"
  shows "at_boundary u t (i + k)
           = (k = upper_run t i \<and> \<not> (i + k < length t \<and> is_word u (t ! (i + k))))"
proof -
  from assms have "k - 1 < upper_run t i" by simp
  from upper_run_nth[OF this] assms(1)
  have prev: "i + k \<le> length t" "is_word u (t ! (i + k - 1))"
    by (auto intro: is_upper_word)
  show ?thesis
  proof (cases "k = upper_run t i")
    case True
    with prev assms(1) show ?thesis by (auto simp: at_boundary_def)
  next
    case False
    with assms have "k < upper_run t i" by simp
    from upper_run_nth[OF this] have "i + k < length t" "is_word u (t ! (i + k))"
      by (auto intro: is_upper_word)
    with prev assms(1) False show ?thesis by (auto simp: at_boundary_def)
  qed
qed

lemma filter_single:
  "distinct xs \<Longrightarrow> filter (\<lambda>k. k = r \<and> Q) xs = (if r \<in> set xs \<and> Q then [r] else [])"
  by (induction xs) auto

lemma concat_map_if:
  "concat (map (\<lambda>x. if P x then [f x] else []) xs) = map f (filter P xs)"
  by (induction xs) auto

text \<open>The ways the group and the boundary match from position i.\<close>

lemma re_match_group_boundary:
  "re_match u t (Seq (Subpattern 1 (Max_repeat 3 10 (In_range 65 90))) At_boundary) (i, g)
     = (let r = upper_run t i
        in if 3 \<le> r \<and> r \<le> 10 \<and> \<not> (i + r < length t \<and> is_word u (t ! (i + r)))
           then [(i + r, (1, i, i + r) # g)] else [])"
proof -
  let ?ks = "rev [3 ..< Suc (min 10 (upper_run t i))]"
  let ?Q = "\<not> (i + upper_run t i < length t \<and> is_word u (t ! (i + upper_run t i)))"
  have "re_match u t (Seq (Subpattern 1 (Max_repeat 3 10 (In_range 65 90))) At_boundary) (i, g)
          = concat (map (\<lambda>k. if at_boundary u t (i + k) then [(i + k, (1, i, i + k) # g)] else []) ?ks)"
    by (simp add: re_match_repeat_upper comp_def del: upt_Suc One_nat_def)
  also have "\<dots> = map (\<lambda>k. (i + k, (1, i, i + k) # g)) (filter (\<lambda>k. at_boundary u t (i + k)) ?ks)"
    by (rule concat_map_if)
  also have "filter (\<lambda>k. at_boundary u t (i + k)) ?ks
               = filter (\<lambda>k. k = upper_run t i \<and> ?Q) ?ks"
  proof (rule filter_cong[OF refl])
    fix k assume "k \<in> set ?ks"
    then have "0 < k" "k \<le> upper_run t i" by auto
    from boundary_in_run[OF this] show "at_boundary u t (i + k) = (k = upper_run t i \<and> ?Q)"
      by auto
  qed
  also have "\<dots> = (if upper_run t i \<in> set ?ks \<and> ?Q then [upper_run t i] else [])"
    by (rule filter_single) simp
  finally show ?thesis by (auto simp: Let_def)
qed

lemma re_match_token_pattern:
  "re_match u t token_pattern (s, [])
     = (if s < length t \<and> t ! s = 36 \<and> 3 \<le> upper_run t (Suc s) \<and> upper_run t (Suc s) \<le> 10
           \<and> \<not> (Suc s + upper_run t (Suc s) < length t
                \<and> is_word u (t ! (Suc s + upper_run t (Suc s))))
        then [(Suc s + upper_run t (Suc s), [(1, Suc s, Suc s + upper_run t (Suc s))])]
        else [])"
proof -
  have "re_match u t token_pattern (s, [])
          = concat (map (re_match u t (Seq (Subpattern 1 (Max_repeat 3 10 (In_range 65 90))) At_boundary))
              (re_match u t (Literal 36) (s, [])))"
    unfolding token_pattern_def by (simp only: re_match.simps)
  also have "\<dots> = (if s < length t \<and> t ! s = 36
                   then re_match u t (Seq (Subpattern 1 (Max_repeat 3 10 (In_range 65 90))) At_boundary) (Suc s, [])
                   else [])"
    by (auto simp del: re_match.simps(7))
  finally show ?thesis
    by (simp only: re_match_group_boundary Let_def) auto
qed

lemma takeWhile_covers:
  assumes "list_all P (take n xs)" "n \<le> length xs"
  shows "n \<le> length (takeWhile P xs)"
proof -
  have "takeWhile P (take n xs @ drop n xs) = take n xs @ takeWhile P (drop n xs)"
    using assms(1) by (intro takeWhile_append2) (simp add: list_all_iff)
  then have "length (takeWhile P xs) = length (take n xs) + length (takeWhile P (drop n xs))"
    by simp
  with assms(2) show ?thesis by simp
qed

lemma mention_at_iff:
  "mention_at u t s n =
     (n = upper_run t (Suc s) \<and> s < length t \<and> t ! s = 36 \<and> 3 \<le> n \<and> n \<le> 10 \<and>
      \<not> (Suc s + n < length t \<and> is_word u (t ! (Suc s + n))))"
proof (cases "s < length t \<and> t ! s = 36 \<and> 3 \<le> n \<and> n \<le> 10 \<and>
      \<not> (Suc s + n < length t \<and> is_word u (t ! (Suc s + n)))")
  case False
  then show ?thesis by (auto simp: mention_at_def)
next
  case True
  have "(Suc s + n \<le> length t \<and> list_all is_upper (take n (drop (Suc s) t)))
          = (n = upper_run t (Suc s))"
  proof
    assume a: "Suc s + n \<le> length t \<and> list_all is_upper (take n (drop (Suc s) t))"
    then have lower: "n \<le> upper_run t (Suc s)"
      unfolding upper_run_def by (intro takeWhile_covers) auto
    have "\<not> n < upper_run t (Suc s)"
    proof
      assume "n < upper_run t (Suc s)"
      from upper_run_nth[OF this] have "Suc s + n < length t" "is_word u (t ! (Suc s + n))"
        by (auto intro: is_upper_word)
      with True show False by simp
    qed
    with lower show "n = upper_run t (Suc s)" by simp
  next
    assume n: "n = upper_run t (Suc s)"
    have "take n (drop (Suc s) t) = takeWhile is_upper (drop (Suc s) t)"
      unfolding n upper_run_def by (rule takeWhile_eq_take[symmetric])
    then have "list_all is_upper (take n (drop (Suc s) t))"
      by (simp add: list_all_iff) (meson set_takeWhileD)
    moreover from True have "s < length t" by simp
    with upper_run_le[of t "Suc s"] n have "Suc s + n \<le> length t" by simp
    ultimately show "Suc s + n \<le> length t \<and> list_all is_upper (take n (drop (Suc s) t))"
      by simp
  qed
  with True show ?thesis by (auto simp: mention_at_def)
qed

lemma filter_mention_at:
  "mentions_at u t s
     = (if s < length t \<and> t ! s = 36 \<and> 3 \<le> upper_run t (Suc s) \<and> upper_run t (Suc s) \<le> 10
           \<and> \<not> (Suc s + upper_run t (Suc s) < length t
                \<and> is_word u (t ! (Suc s + upper_run t (Suc s))))
        then [upper_run t (Suc s)] else [])"
proof -
  let ?r = "upper_run t (Suc s)"
  let ?Q = "s < length t \<and> t ! s = 36 \<and> \<not> (Suc s + ?r < length t \<and> is_word u (t ! (Suc s + ?r)))"
  have "mentions_at u t s = filter (\<lambda>n. n = ?r \<and> ?Q) [3 ..< 11]"
    unfolding mentions_at_def by (rule filter_cong[OF refl]) (auto simp: mention_at_iff)
  also have "\<dots> = (if ?r \<in> set [3 ..< 11] \<and> ?Q then [?r] else [])"
    by (rule filter_single) simp
  finally show ?thesis by auto
qed

lemma re_match_token_pattern_spec:
  "re_match u t token_pattern (s, [])
     = map (\<lambda>n. (Suc s + n, [(1, Suc s, Suc s + n)])) (mentions_at u t s)"
  by (simp only: re_match_token_pattern filter_mention_at) simp

lemma mentions_at_cases:
  "mentions_at u t s = []
   \<or> (\<exists>n. mentions_at u t s = [n] \<and> mention_at u t s n)"
proof (cases "mentions_at u t s = []")
  case True
  then show ?thesis by simp
next
  case False
  then obtain n where n: "mentions_at u t s = [n]"
    using filter_mention_at[of u t s] by (auto split: if_splits)
  then have "n \<in> set (mentions_at u t s)" by simp
  then have "mention_at u t s n" unfolding mentions_at_def by (simp only: set_filter) simp
  with n show ?thesis by blast
qed

lemma mention_at_letters:
  assumes "mention_at u t s n" "s < s'" "s' \<le> s + n"
  shows "is_upper (t ! s')"
proof -
  from assms(1) have all: "list_all is_upper (take n (drop (Suc s) t))"
    and len: "Suc s + n \<le> length t"
    by (simp_all add: mention_at_def)
  from assms(2,3) obtain k where k: "s' = Suc s + k" "k < n"
    by (metis add_Suc_right add_Suc less_iff_Suc_add less_Suc_eq_le add_less_cancel_left)
  with len have "take n (drop (Suc s) t) ! k = t ! s'" by simp
  moreover from k len have "k < length (take n (drop (Suc s) t))" by simp
  ultimately show ?thesis using all by (metis list_all_length)
qed

lemma no_mention_inside:
  assumes "mention_at u t s n" "s < s'" "s' \<le> s + n"
  shows "mentions_at u t s' = []"
proof -
  from mention_at_letters[OF assms] have "t ! s' \<noteq> 36" by (rule is_upper_not_dollar)
  then have "\<not> mention_at u t s' k" for k by (simp add: mention_at_def)
  then show ?thesis by (simp add: mentions_at_def)
qed

lemma first_match_token_pattern:
  "first_match u token_pattern t adv (s # ss) =
     (case mentions_at u t s of
        [] \<Rightarrow> first_match u token_pattern t False ss
      | n # _ \<Rightarrow> Some (token_match s n))"
proof -
  have keep: "filter (\<lambda>(e, g). \<not> (adv \<and> e = s))
                (map (\<lambda>n. (Suc s + n, [(1, Suc s, Suc s + n)])) ns)
              = map (\<lambda>n. (Suc s + n, [(1, Suc s, Suc s + n)])) ns" for ns
    by (induction ns) auto
  show ?thesis
    by (simp only: first_match.simps re_match_token_pattern_spec keep)
       (simp add: token_match_def split: list.splits)
qed

lemma re_finditer_from_token_pattern:
  "re_finditer_from u token_pattern t pos adv
     = concat (map (\<lambda>s. map (token_match s) (mentions_at u t s))
         [pos ..< Suc (length t)])"
proof (induction "Suc (length t) - pos" arbitrary: pos adv rule: less_induct)
  case less
  let ?h = "\<lambda>s. map (token_match s) (mentions_at u t s)"
  show ?case
  proof (cases "pos \<le> length t")
    case False
    then have "re_search u token_pattern t pos adv = None" by (simp add: re_search_def)
    then have "re_finditer_from u token_pattern t pos adv = []"
      by (subst re_finditer_from.simps) simp
    with False show ?thesis by simp
  next
    case True
    then have range: "[pos ..< Suc (length t)] = pos # [Suc pos ..< Suc (length t)]"
      by (simp add: upt_conv_Cons del: upt_Suc)
    from mentions_at_cases[of u t pos] show ?thesis
    proof
      assume none: "mentions_at u t pos = []"
      have "re_search u token_pattern t pos adv = re_search u token_pattern t (Suc pos) False"
        unfolding re_search_def range by (simp only: first_match_token_pattern none) simp
      then have "re_finditer_from u token_pattern t pos adv
                   = re_finditer_from u token_pattern t (Suc pos) False"
        by (subst re_finditer_from.simps, subst (2) re_finditer_from.simps) simp
      also have "\<dots> = concat (map ?h [Suc pos ..< Suc (length t)])"
        using True by (intro less.hyps) simp
      finally show ?thesis unfolding range by (simp add: none del: upt_Suc)
    next
      assume "\<exists>n. mentions_at u t pos = [n] \<and> mention_at u t pos n"
      then obtain n where one: "mentions_at u t pos = [n]"
        and at: "mention_at u t pos n" by blast
      from at have len: "Suc pos + n \<le> length t" by (simp add: mention_at_def)
      have "re_search u token_pattern t pos adv = Some (token_match pos n)"
        unfolding re_search_def range by (simp only: first_match_token_pattern one) simp
      then have "re_finditer_from u token_pattern t pos adv
                   = token_match pos n # re_finditer_from u token_pattern t (Suc pos + n) False"
        by (subst re_finditer_from.simps) (simp add: token_match_def)
      also have "re_finditer_from u token_pattern t (Suc pos + n) False
                   = concat (map ?h [Suc pos + n ..< Suc (length t)])"
        using len by (intro less.hyps) simp
      also have "token_match pos n # concat (map ?h [Suc pos + n ..< Suc (length t)])
                   = concat (map ?h [pos ..< Suc (length t)])"
      proof -
        have split: "[Suc pos ..< Suc (length t)]
                       = [Suc pos ..< Suc pos + n] @ [Suc pos + n ..< Suc (length t)]"
          using len upt_add_eq_append[of "Suc pos" "Suc pos + n" "Suc (length t) - (Suc pos + n)"]
          by simp
        have "?h s' = []" if "s' \<in> set [Suc pos ..< Suc pos + n]" for s'
        proof -
          from that have "pos < s'" "s' \<le> pos + n" by (simp_all only: set_upt) simp_all
          then have "mentions_at u t s' = []" by (rule no_mention_inside[OF at])
          then show ?thesis by simp
        qed
        then have "concat (map ?h [Suc pos ..< Suc pos + n]) = []"
          by (simp del: upt_Suc)
        then show ?thesis unfolding range split by (simp add: one del: upt_Suc)
      qed
      finally show ?thesis .
    qed
  qed
qed

lemma re_finditer_token_pattern:
  "re_finditer u token_pattern t = map (\<lambda>(s, n). token_match s n) (occurrences u t)"
proof -
  have last: "mentions_at u t (length t) = []"
    by (simp add: mentions_at_def mention_at_def)
  have "re_finditer u token_pattern t
          = concat (map (\<lambda>s. map (token_match s) (mentions_at u t s))
              [0 ..< length t])"
    unfolding re_finditer_def re_finditer_from_token_pattern by (simp add: last)
  also have "\<dots> = map (\<lambda>(s, n). token_match s n) (occurrences u t)"
    unfolding occurrences_def by (simp add: map_concat comp_def)
  finally show ?thesis .
qed

lemma mentions_at_set: "n \<in> set (mentions_at u t s) \<longleftrightarrow> mention_at u t s n"
proof -
  have "mention_at u t s n \<Longrightarrow> 3 \<le> n \<and> n < 11" by (simp add: mention_at_def)
  then show ?thesis unfolding mentions_at_def by (simp only: set_filter set_upt) auto
qed

lemma occurrences_set: "set (occurrences u t) = {(s, n). mention_at u t s n}"
proof -
  have "mention_at u t s n \<Longrightarrow> s < length t" for s n by (simp add: mention_at_def)
  then show ?thesis unfolding occurrences_def by (force simp: mentions_at_set)
qed

lemma mentions_at_apart:
  assumes "mention_at u t s n" "mention_at u t s' n'" "s < s'"
  shows "Suc s + n \<le> s'"
proof (rule ccontr)
  assume "\<not> Suc s + n \<le> s'"
  with assms(3) have "s' \<le> s + n" by simp
  from no_mention_inside[OF assms(1,3) this] have "mentions_at u t s' = []" .
  with assms(2) mentions_at_set[of n' u t s'] show False by simp
qed

lemma mentions_at_short: "length (mentions_at u t s) \<le> 1"
  using mentions_at_cases[of u t s] by auto

lemma occurrences_upto_sorted:
  "sorted_wrt (\<lambda>(s, n) (s', n'). Suc s + n \<le> s')
     (concat (map (\<lambda>s. map (\<lambda>n. (s, n)) (mentions_at u t s)) [0 ..< k]))
   \<and> (\<forall>(s, n) \<in> set (concat (map (\<lambda>s. map (\<lambda>n. (s, n)) (mentions_at u t s)) [0 ..< k])).
        s < k \<and> mention_at u t s n)"
proof (induction k)
  case 0
  then show ?case by simp
next
  case (Suc k)
  let ?R = "\<lambda>(s, n) (s', n'). Suc s + n \<le> (s' :: nat)"
  let ?xs = "concat (map (\<lambda>s. map (\<lambda>n. (s, n)) (mentions_at u t s)) [0 ..< k])"
  let ?ys = "map (\<lambda>n. (k, n)) (mentions_at u t k)"
  from Suc.IH have sorted: "sorted_wrt ?R ?xs"
    and mem: "\<And>s n. (s, n) \<in> set ?xs \<Longrightarrow> s < k \<and> mention_at u t s n" by auto
  have ys: "sorted_wrt ?R ?ys"
    using mentions_at_cases[of u t k] by auto
  have cross: "?R x y" if "x \<in> set ?xs" "y \<in> set ?ys" for x y
  proof -
    obtain s n where x: "x = (s, n)" by (cases x)
    from that(2) obtain n' where y: "y = (k, n')" "mention_at u t k n'"
      by (auto simp: mentions_at_set)
    from mem[of s n] that(1) x have "s < k" "mention_at u t s n" by auto
    from mentions_at_apart[OF this(2) y(2) this(1)] x y show ?thesis by simp
  qed
  have "sorted_wrt ?R (?xs @ ?ys)"
    unfolding sorted_wrt_append using sorted ys cross by blast
  moreover have "\<forall>(s, n) \<in> set (?xs @ ?ys). s < Suc k \<and> mention_at u t s n"
    using mem by (auto simp: mentions_at_set less_Suc_eq)
  ultimately show ?case by simp
qed

lemma occurrences_sorted:
  "sorted_wrt (\<lambda>(s, n) (s', n'). Suc s + n \<le> s') (occurrences u t)"
  unfolding occurrences_def using occurrences_upto_sorted[of u t "length t"] by blast

lemma token_of_match: "m_group t (token_match s n) (Suc 0) = Some (take n (drop (Suc s) t))"
  by (simp add: m_group_def token_match_def)

lemma extract_token_mentions_occurrences:
  "extract_token_mentions u self t
     = map (\<lambda>(s, n). \<lparr>mention_token = Some (take n (drop (Suc s) t)),
                     mention_context = py_strip u (context_window t (token_match s n))\<rparr>)
         (occurrences u t)"
  unfolding extract_token_mentions_def re_finditer_token_pattern
  by (simp add: token_of_match case_prod_beta comp_def)

text \<open>The window of a match, and what trimming keeps of it.\<close>

lemma context_window_eq:
  "context_window t m
     = take (min (length t) (m_end m + 100) - (m_start m - 100)) (drop (m_start m - 100) t)"
proof -
  have lo: "clip_index (length t) (max 0 (int (m_start m) - 100)) = min (length t) (m_start m - 100)"
    by (auto simp: clip_index_def max_def)
  have hi: "clip_index (length t) (min (int (length t)) (int (m_end m) + 100))
              = min (length t) (m_end m + 100)"
    by (auto simp: clip_index_def min_def)
  show ?thesis
  proof (cases "m_start m - 100 \<le> length t")
    case True
    then show ?thesis
      unfolding context_window_def Let_def py_slice_def lo hi by (simp add: min_absorb2)
  next
    case False
    then show ?thesis
      unfolding context_window_def Let_def py_slice_def lo hi by simp
  qed
qed

lemma sub_slice:
  assumes "lo \<le> s" "s + j \<le> lo + k"
  shows "\<exists>a b. take k (drop lo t) = a @ take j (drop s t) @ b"
proof -
  from assms have k: "k = (s - lo) + (j + (lo + k - (s + j)))" by simp
  have "take k (drop lo t)
          = take (s - lo) (drop lo t)
            @ take (j + (lo + k - (s + j))) (drop (s - lo) (drop lo t))"
    by (subst k) (rule take_add)
  also have "drop (s - lo) (drop lo t) = drop s t"
    using assms(1) by simp
  also have "take (j + (lo + k - (s + j))) (drop s t)
               = take j (drop s t) @ take (lo + k - (s + j)) (drop j (drop s t))"
    by (rule take_add)
  finally show ?thesis by blast
qed

lemma dropWhile_keeps:
  "\<not> P y \<Longrightarrow> \<exists>a. dropWhile P (xs @ y # ys) = a @ y # ys"
  by (metis dropWhile_append3)

lemma py_strip_keeps_core:
  assumes "core \<noteq> []" "\<not> is_space u (hd core)" "\<not> is_space u (last core)"
  shows "\<exists>a b. py_strip u (pre @ core @ post) = a @ core @ b"
proof -
  from assms(1) obtain y ys where c1: "core = y # ys" by (cases core) auto
  with assms(2) have "\<not> is_space u y" by simp
  from dropWhile_keeps[of "is_space u" y "pre" "ys @ post"] this c1
  obtain a where a: "dropWhile (is_space u) (pre @ core @ post) = a @ core @ post" by auto
  from assms(1) have c2: "rev core = last core # rev (butlast core)"
    by (metis append_butlast_last_id rev.simps(2) rev_append rev_rev_ident append_Nil rev.simps(1) append_Cons)
  have eq: "rev (a @ core @ post) = rev post @ last core # (rev (butlast core) @ rev a)"
    using c2 by simp
  from dropWhile_keeps[of "is_space u" "last core" "rev post" "rev (butlast core) @ rev a"] assms(3)
  obtain b where b: "dropWhile (is_space u) (rev post @ last core # (rev (butlast core) @ rev a))
                    = b @ last core # (rev (butlast core) @ rev a)" by blast
  have "rev (dropWhile (is_space u) (rev (a @ core @ post)))
          = rev (b @ last core # (rev (butlast core) @ rev a))"
    unfolding eq b ..
  also have "\<dots> = a @ (butlast core @ [last core]) @ rev b" by simp
  also have "butlast core @ [last core] = core" using assms(1) by simp
  finally have "py_strip u (pre @ core @ post) = a @ core @ rev b"
    unfolding py_strip_def a .
  then show ?thesis by blast
qed

lemma py_strip_sublist: "\<exists>a b. w = a @ py_strip u w @ b"
proof -
  let ?v = "dropWhile (is_space u) w"
  have 1: "w = takeWhile (is_space u) w @ ?v" by simp
  have "rev ?v = takeWhile (is_space u) (rev ?v) @ dropWhile (is_space u) (rev ?v)" by simp
  then have "rev (rev ?v) = rev (takeWhile (is_space u) (rev ?v) @ dropWhile (is_space u) (rev ?v))"
    by simp
  then have "?v = py_strip u w @ rev (takeWhile (is_space u) (rev ?v))"
    unfolding py_strip_def by (simp only: rev_append rev_rev_ident)
  with 1 have "w = takeWhile (is_space u) w @ py_strip u w @ rev (takeWhile (is_space u) (rev ?v))"
    by simp
  then show ?thesis by blast
qed

lemma take_drop_sublist: "\<exists>a b. t = a @ take k (drop lo t) @ b"
proof -
  have "drop lo t = take k (drop lo t) @ drop k (drop lo t)" by (simp only: append_take_drop_id)
  then have "take lo t @ drop lo t = take lo t @ take k (drop lo t) @ drop k (drop lo t)" by simp
  then have "t = take lo t @ take k (drop lo t) @ drop k (drop lo t)" by (simp only: append_take_drop_id)
  then show ?thesis by blast
qed

lemma is_upper_not_space: "is_upper c \<Longrightarrow> \<not> is_space u c"
  by (simp add: is_upper_def is_space_def)

lemma dollar_not_space: "\<not> is_space u 36"
  by (simp add: is_space_def)

lemma length_extract_token_mentions:
  "length (extract_token_mentions u self t) = length (re_finditer u token_pattern t)"
  by (simp add: extract_token_mentions_def)

lemma nth_extract_token_mentions:
  "i < length (re_finditer u token_pattern t) \<Longrightarrow>
     extract_token_mentions u self t ! i
       = \<lparr>mention_token = m_group t (re_finditer u token_pattern t ! i) 1,
          mention_context = py_strip u (context_window t (re_finditer u token_pattern t ! i))\<rparr>"
  by (simp add: extract_token_mentions_def)

lemma nth_re_finditer_token_pattern:
  assumes "i < length (re_finditer u token_pattern t)"
  shows "\<exists>s n. re_finditer u token_pattern t ! i = token_match s n \<and> mention_at u t s n"
proof -
  from assms have i: "i < length (occurrences u t)" by (simp add: re_finditer_token_pattern)
  obtain s n where sn: "occurrences u t ! i = (s, n)" by (cases "occurrences u t ! i")
  from i have "occurrences u t ! i \<in> set (occurrences u t)" by (rule nth_mem)
  with sn have "mention_at u t s n" by (simp add: occurrences_set)
  moreover from i sn have "re_finditer u token_pattern t ! i = token_match s n"
    by (simp add: re_finditer_token_pattern)
  ultimately show ?thesis by blast
qed

lemma window_of_mention:
  assumes "mention_at u t s n"
  shows "length (context_window t (token_match s n)) \<le> 211"
    and "\<exists>a b. py_strip u (context_window t (token_match s n))
                  = a @ 36 # take n (drop (Suc s) t) @ b"
proof -
  let ?w = "context_window t (token_match s n)"
  let ?lo = "s - 100"
  let ?k = "min (length t) (Suc s + n + 100) - (s - 100)"
  let ?tok = "take n (drop (Suc s) t)"
  from assms have facts: "s < length t" "t ! s = 36" "3 \<le> n" "n \<le> 10" "Suc s + n \<le> length t"
    "list_all is_upper ?tok"
    by (simp_all add: mention_at_def)
  have w: "?w = take ?k (drop ?lo t)"
    by (simp add: context_window_eq token_match_def)
  from facts(4) show "length ?w \<le> 211" unfolding w by simp
  have core: "take (Suc n) (drop s t) = 36 # ?tok"
    using facts(1,2) by (simp add: Cons_nth_drop_Suc[symmetric])
  from facts(5) have "?lo \<le> s" "s + Suc n \<le> ?lo + ?k" by simp_all
  from sub_slice[OF this, of t] core
  obtain pre post where split: "?w = pre @ (36 # ?tok) @ post" unfolding w by auto
  from facts have len: "length ?tok = n" by simp
  with facts(3) have ne: "?tok \<noteq> []" by auto
  from facts(6) ne have "is_upper (last ?tok)"
    by (metis last_in_set list_all_iff)
  then have "\<not> is_space u (last (36 # ?tok))" using ne by (simp add: is_upper_not_space)
  moreover have "\<not> is_space u (hd (36 # ?tok))" by (simp add: dollar_not_space)
  ultimately have "\<exists>a b. py_strip u (pre @ (36 # ?tok) @ post) = a @ (36 # ?tok) @ b"
    by (intro py_strip_keeps_core) simp_all
  then show "\<exists>a b. py_strip u ?w = a @ 36 # ?tok @ b" unfolding split by simp
qed

section \<open>The claims about the mention extractor\<close>

text \<open>
  A table in which no character beyond ASCII is alphanumeric or whitespace, for the
  examples.
\<close>

definition ascii_only :: unicode_db where
  "ascii_only = \<lparr>uni_alnum = (\<lambda>_. False), uni_space = (\<lambda>_. False)\<rparr>"

text \<open>
  C1. For every text, the tokens the extractor returns are exactly the occurrences of the
  pattern "a dollar sign followed by 3 to 10 uppercase Latin letters, not immediately
  followed by another word character", from left to right: the list of tokens equals the
  list of the letters of every occurrence; the occurrences are all the positions where the
  pattern stands; one occurrence ends before the next one starts, so they do not overlap.
  Hence every token returned consists of uppercase Latin letters only, has between 3 and
  10 of them, stands in the text immediately after a dollar sign, and is not immediately
  followed by a word character.
\<close>

theorem extract_token_mentions_tokens:
  "map mention_token (extract_token_mentions u self t)
     = map (\<lambda>(s, n). Some (take n (drop (Suc s) t))) (occurrences u t)
   \<and> set (occurrences u t) = {(s, n). mention_at u t s n}
   \<and> sorted_wrt (\<lambda>(s, n) (s', n'). Suc s + n \<le> s') (occurrences u t)
   \<and> (\<forall>m \<in> set (extract_token_mentions u self t).
        \<exists>tok s. mention_token m = Some tok \<and> list_all is_upper tok
          \<and> 3 \<le> length tok \<and> length tok \<le> 10
          \<and> s < length t \<and> t ! s = 36 \<and> take (length tok) (drop (Suc s) t) = tok
          \<and> \<not> (Suc s + length tok < length t \<and> is_word u (t ! (Suc s + length tok))))"
proof (intro conjI ballI)
  show "map mention_token (extract_token_mentions u self t)
          = map (\<lambda>(s, n). Some (take n (drop (Suc s) t))) (occurrences u t)"
    by (simp add: extract_token_mentions_occurrences case_prod_beta comp_def)
  show "set (occurrences u t) = {(s, n). mention_at u t s n}"
    by (rule occurrences_set)
  show "sorted_wrt (\<lambda>(s, n) (s', n'). Suc s + n \<le> s') (occurrences u t)"
    by (rule occurrences_sorted)
next
  fix m assume "m \<in> set (extract_token_mentions u self t)"
  then obtain s n where occ: "(s, n) \<in> set (occurrences u t)"
    and m: "mention_token m = Some (take n (drop (Suc s) t))"
    by (auto simp: extract_token_mentions_occurrences)
  from occ have at: "mention_at u t s n" by (simp add: occurrences_set)
  let ?tok = "take n (drop (Suc s) t)"
  from at have len: "length ?tok = n" by (auto simp: mention_at_def)
  from at have "list_all is_upper ?tok" "3 \<le> n" "n \<le> 10" "s < length t" "t ! s = 36"
    "\<not> (Suc s + n < length t \<and> is_word u (t ! (Suc s + n)))"
    by (simp_all add: mention_at_def)
  with m len show "\<exists>tok s. mention_token m = Some tok \<and> list_all is_upper tok
          \<and> 3 \<le> length tok \<and> length tok \<le> 10
          \<and> s < length t \<and> t ! s = 36 \<and> take (length tok) (drop (Suc s) t) = tok
          \<and> \<not> (Suc s + length tok < length t \<and> is_word u (t ! (Suc s + length tok)))"
    by (intro exI[of _ ?tok] exI[of _ s]) simp
qed

lemma example_occurrences:
  "occurrences u (ascii ''buy $SOL, sell $DOGE'') = [(4, 3), (15, 4)]"
  by (simp add: occurrences_def mentions_at_def mention_at_def is_upper_def is_word_def ascii_def)

theorem extract_token_mentions_tokens_witness:
  "map mention_token (extract_token_mentions ascii_only (init_scraper [] []) (ascii ''buy $SOL, sell $DOGE''))
     = [Some (ascii ''SOL''), Some (ascii ''DOGE'')]
   \<and> set (occurrences ascii_only (ascii ''buy $SOL, sell $DOGE'')) = {(4, 3), (15, 4)}
   \<and> mention_at ascii_only (ascii ''buy $SOL, sell $DOGE'') 4 3
   \<and> mention_at ascii_only (ascii ''buy $SOL, sell $DOGE'') 15 4
   \<and> extract_token_mentions ascii_only (init_scraper [] []) (ascii ''buy $SOL, sell $DOGE'') \<noteq> []"
proof -
  note inst = extract_token_mentions_tokens[of ascii_only "init_scraper [] []" "ascii ''buy $SOL, sell $DOGE''"]
  have occ: "occurrences ascii_only (ascii ''buy $SOL, sell $DOGE'') = [(4, 3), (15, 4)]"
    by (rule example_occurrences)
  from inst have 1: "map mention_token (extract_token_mentions ascii_only (init_scraper [] []) (ascii ''buy $SOL, sell $DOGE''))
     = [Some (ascii ''SOL''), Some (ascii ''DOGE'')]"
    unfolding occ by (simp add: ascii_def)
  from inst have "{(4, 3), (15, 4)} = {(s, n). mention_at ascii_only (ascii ''buy $SOL, sell $DOGE'') s n}"
    unfolding occ by simp
  then have 2: "mention_at ascii_only (ascii ''buy $SOL, sell $DOGE'') 4 3"
      "mention_at ascii_only (ascii ''buy $SOL, sell $DOGE'') 15 4"
    by blast+
  from 1 have 3: "extract_token_mentions ascii_only (init_scraper [] []) (ascii ''buy $SOL, sell $DOGE'') \<noteq> []"
    by auto
  from 1 2 3 occ show ?thesis by simp
qed

text \<open>
  C2, as the code has it. For the \<open>i\<close>-th match of a text, the \<open>i\<close>-th record holds
  the trimmed window of that match; the window is the slice of the text from 100
  characters before the start of the match (or from the start of the text) to 100
  characters after its end (or to the end of the text); it has at most 211 characters
  (100, the dollar sign, up to 10 letters, 100); the excerpt is a contiguous piece of
  the text; and the excerpt contains the dollar sign and the token.
\<close>

theorem excerpt_of_match:
  assumes "i < length (re_finditer u token_pattern t)"
  shows "let m = re_finditer u token_pattern t ! i;
             r = extract_token_mentions u self t ! i;
             w = context_window t m
         in length (extract_token_mentions u self t) = length (re_finditer u token_pattern t)
            \<and> mention_context r = py_strip u w
            \<and> w = take (min (length t) (m_end m + 100) - (m_start m - 100))
                    (drop (m_start m - 100) t)
            \<and> length w \<le> 211
            \<and> (\<exists>a b. t = a @ mention_context r @ b)
            \<and> (\<exists>a b tok. mention_token r = Some tok \<and> mention_context r = a @ 36 # tok @ b)"
proof -
  let ?m = "re_finditer u token_pattern t ! i"
  let ?r = "extract_token_mentions u self t ! i"
  let ?w = "context_window t ?m"
  from nth_re_finditer_token_pattern[OF assms]
  obtain s n where m: "?m = token_match s n" and at: "mention_at u t s n" by blast
  have r: "?r = \<lparr>mention_token = Some (take n (drop (Suc s) t)), mention_context = py_strip u ?w\<rparr>"
    by (simp add: nth_extract_token_mentions[OF assms] m token_of_match)
  have 1: "mention_context ?r = py_strip u ?w" by (simp add: r)
  have 2: "?w = take (min (length t) (m_end ?m + 100) - (m_start ?m - 100))
                  (drop (m_start ?m - 100) t)"
    by (rule context_window_eq)
  have 3: "length ?w \<le> 211" unfolding m by (rule window_of_mention(1)[OF at])
  have 4: "\<exists>a b. t = a @ mention_context ?r @ b"
  proof -
    from take_drop_sublist[of t _ "m_start ?m - 100"] 2
    obtain a b where "t = a @ ?w @ b" by metis
    moreover from py_strip_sublist[of ?w u] obtain c d where "?w = c @ py_strip u ?w @ d" by blast
    ultimately have "t = (a @ c) @ py_strip u ?w @ (d @ b)"
      by (metis append.assoc)
    then show ?thesis unfolding 1 by blast
  qed
  have 5: "\<exists>a b tok. mention_token ?r = Some tok \<and> mention_context ?r = a @ 36 # tok @ b"
    using window_of_mention(2)[OF at] unfolding r m by auto
  from 1 2 3 4 5 show ?thesis
    unfolding Let_def length_extract_token_mentions by blast
qed

lemma example_finditer:
  "re_finditer u token_pattern (ascii ''buy $SOL, sell $DOGE'') = [token_match 4 3, token_match 15 4]"
  by (simp add: re_finditer_token_pattern example_occurrences)

theorem excerpt_of_match_witness:
  "1 < length (re_finditer ascii_only token_pattern (ascii ''buy $SOL, sell $DOGE''))
   \<and> mention_context (extract_token_mentions ascii_only (init_scraper [] []) (ascii ''buy $SOL, sell $DOGE'') ! 1)
       = ascii ''buy $SOL, sell $DOGE''
   \<and> mention_token (extract_token_mentions ascii_only (init_scraper [] []) (ascii ''buy $SOL, sell $DOGE'') ! 1)
       = Some (ascii ''DOGE'')
   \<and> length (context_window (ascii ''buy $SOL, sell $DOGE'') (token_match 15 4)) \<le> 211
   \<and> (\<exists>a b. ascii ''buy $SOL, sell $DOGE''
         = a @ mention_context (extract_token_mentions ascii_only (init_scraper [] []) (ascii ''buy $SOL, sell $DOGE'') ! 1) @ b)"
proof -
  let ?X = "ascii ''buy $SOL, sell $DOGE''"
  let ?E = "extract_token_mentions ascii_only (init_scraper [] []) ?X"
  have i: "1 < length (re_finditer ascii_only token_pattern ?X)"
    by (simp add: example_finditer)
  have ex: "?E = [\<lparr>mention_token = Some (ascii ''SOL''), mention_context = ?X\<rparr>,
                  \<lparr>mention_token = Some (ascii ''DOGE''), mention_context = ?X\<rparr>]"
    unfolding extract_token_mentions_occurrences example_occurrences
    by (simp add: context_window_eq token_match_def py_strip_def is_space_def ascii_def)
  have nth: "re_finditer ascii_only token_pattern ?X ! 1 = token_match 15 4"
    by (simp add: example_finditer)
  note inst = excerpt_of_match[OF i, of "init_scraper [] []", unfolded Let_def nth]
  from inst have 4: "length (context_window ?X (token_match 15 4)) \<le> 211" by blast
  from inst have 5: "\<exists>a b. ?X = a @ mention_context (?E ! 1) @ b" by blast
  have 2: "mention_context (?E ! 1) = ?X" by (simp add: ex)
  have 3: "mention_token (?E ! 1) = Some (ascii ''DOGE'')" by (simp add: ex)
  from i 2 3 4 5 show ?thesis by blast
qed

text \<open>
  C2 as stated bounds the window by 201 characters. A text of 100 full stops, \<^verbatim>\<open>$ABC\<close> and
  100 full stops is matched at position 100, and the window, which is also the excerpt
  returned, is the whole text: 204 characters.
\<close>

definition long_text :: pystr where
  "long_text = replicate 100 46 @ ascii ''$ABC'' @ replicate 100 46"

lemma long_text_mention: "mention_at ascii_only long_text 100 3"
  by (simp add: mention_at_def long_text_def ascii_def nth_append is_upper_def is_word_def
      ascii_only_def)

lemma long_text_length: "length long_text = 204"
  by (simp add: long_text_def ascii_def)

lemma long_text_window: "context_window long_text (token_match 100 3) = long_text"
  by (simp add: context_window_eq token_match_def long_text_length)

lemma long_text_strip: "py_strip ascii_only long_text = long_text"
proof -
  have r: "replicate 100 46 = 46 # replicate 99 (46::nat)"
    using replicate_Suc[of 99 "46::nat"] by simp
  have 1: "dropWhile (is_space ascii_only) long_text = long_text"
    unfolding long_text_def r by (simp add: is_space_def)
  have 2: "rev long_text = replicate 100 46 @ rev (ascii ''$ABC'') @ replicate 100 46"
    unfolding long_text_def by simp
  have 3: "dropWhile (is_space ascii_only) (rev long_text) = rev long_text"
    unfolding 2 r by (simp add: is_space_def)
  show ?thesis unfolding py_strip_def 1 3 by simp
qed

theorem excerpt_longer_than_201:
  "token_match 100 3 \<in> set (re_finditer ascii_only token_pattern long_text)
   \<and> length (context_window long_text (token_match 100 3)) = 204
   \<and> \<lparr>mention_token = Some (ascii ''ABC''), mention_context = long_text\<rparr>
       \<in> set (extract_token_mentions ascii_only (init_scraper [] []) long_text)
   \<and> length long_text = 204"
proof -
  have occ: "(100, 3) \<in> set (occurrences ascii_only long_text)"
    using long_text_mention by (simp add: occurrences_set)
  then have 1: "token_match 100 3 \<in> set (re_finditer ascii_only token_pattern long_text)"
    unfolding re_finditer_token_pattern by force
  have len: "length long_text = 204" by (rule long_text_length)
  have tok: "take 3 (drop 101 long_text) = ascii ''ABC''"
    by (simp add: long_text_def ascii_def)
  from occ
  have "(\<lambda>(s, n). \<lparr>mention_token = Some (take n (drop (Suc s) long_text)),
                     mention_context = py_strip ascii_only (context_window long_text (token_match s n))\<rparr>) (100, 3)
          \<in> (\<lambda>(s, n). \<lparr>mention_token = Some (take n (drop (Suc s) long_text)),
                     mention_context = py_strip ascii_only (context_window long_text (token_match s n))\<rparr>)
              ` set (occurrences ascii_only long_text)"
    by (rule imageI)
  then have "\<lparr>mention_token = Some (take 3 (drop (Suc 100) long_text)),
             mention_context = py_strip ascii_only (context_window long_text (token_match 100 3))\<rparr>
          \<in> set (extract_token_mentions ascii_only (init_scraper [] []) long_text)"
    unfolding extract_token_mentions_occurrences set_map by simp
  then have 3: "\<lparr>mention_token = Some (ascii ''ABC''), mention_context = long_text\<rparr>
       \<in> set (extract_token_mentions ascii_only (init_scraper [] []) long_text)"
    by (simp add: tok long_text_window long_text_strip)
  from 1 3 len show ?thesis by (simp add: long_text_window)
qed

text \<open>
  C7. For the text \<^verbatim>\<open>Check out $BTC and $ETH today\<close> the extractor returns exactly two
  records, in this order: token \<open>BTC\<close> and token \<open>ETH\<close>. The text is shorter than
  the 100 characters of the window on either side and has no whitespace at its ends, so
  the excerpt of each record is the whole text. This holds whatever the Unicode tables
  say beyond ASCII and whatever the object holds.
\<close>

theorem extract_token_mentions_btc_eth:
  "extract_token_mentions u self (ascii ''Check out $BTC and $ETH today'')
     = [\<lparr>mention_token = Some (ascii ''BTC''),
          mention_context = ascii ''Check out $BTC and $ETH today''\<rparr>,
        \<lparr>mention_token = Some (ascii ''ETH''),
          mention_context = ascii ''Check out $BTC and $ETH today''\<rparr>]"
  unfolding extract_token_mentions_def re_finditer_token_pattern
  by (simp add: occurrences_def mentions_at_def mention_at_def is_upper_def is_word_def
      token_match_def m_group_def context_window_def py_slice_def clip_index_def py_strip_def
      is_space_def ascii_def)

text \<open>
  A dollar-prefixed run of 3 to 10 uppercase letters, read in two ways: \<open>n\<close> uppercase
  letters stand after a dollar sign at \<open>s\<close>, for some \<open>n\<close> from 3 to 10; or the
  whole run of uppercase letters after a dollar sign has 3 to 10 letters. A text with a
  run of the second kind has one of the first kind.
\<close>

definition dollar_run_at :: "pystr \<Rightarrow> nat \<Rightarrow> nat \<Rightarrow> bool" where
  "dollar_run_at t s n =
     (s < length t \<and> t ! s = 36 \<and> 3 \<le> n \<and> n \<le> 10 \<and> Suc s + n \<le> length t \<and>
      list_all is_upper (take n (drop (Suc s) t)))"

definition has_dollar_run :: "pystr \<Rightarrow> bool" where
  "has_dollar_run t = list_ex (\<lambda>s. list_ex (dollar_run_at t s) [3 ..< 11]) [0 ..< length t]"

definition has_maximal_dollar_run :: "pystr \<Rightarrow> bool" where
  "has_maximal_dollar_run t =
     list_ex (\<lambda>s. t ! s = 36 \<and> 3 \<le> upper_run t (Suc s) \<and> upper_run t (Suc s) \<le> 10)
       [0 ..< length t]"

lemma has_dollar_run_iff: "has_dollar_run t \<longleftrightarrow> (\<exists>s n. dollar_run_at t s n)"
proof
  assume "has_dollar_run t"
  then show "\<exists>s n. dollar_run_at t s n"
    unfolding has_dollar_run_def list_ex_iff by blast
next
  assume "\<exists>s n. dollar_run_at t s n"
  then obtain s n where d: "dollar_run_at t s n" by blast
  then have "s \<in> set [0 ..< length t]" "n \<in> set [3 ..< 11]"
    unfolding dollar_run_at_def by (simp_all only: set_upt) auto
  with d show "has_dollar_run t"
    unfolding has_dollar_run_def list_ex_iff by blast
qed

lemma mention_at_dollar_run: "mention_at u t s n \<Longrightarrow> dollar_run_at t s n"
  by (simp add: mention_at_def dollar_run_at_def)

lemma mention_at_maximal_run: "mention_at u t s n \<Longrightarrow> has_maximal_dollar_run t"
proof -
  assume "mention_at u t s n"
  then have "n = upper_run t (Suc s)" "s < length t" "t ! s = 36" "3 \<le> n" "n \<le> 10"
    by (simp_all add: mention_at_iff)
  then have "s \<in> set [0 ..< length t]"
    "t ! s = 36 \<and> 3 \<le> upper_run t (Suc s) \<and> upper_run t (Suc s) \<le> 10"
    by simp_all
  then show ?thesis unfolding has_maximal_dollar_run_def list_ex_iff by blast
qed

lemma no_occurrences:
  assumes "\<And>s n. \<not> mention_at u t s n"
  shows "extract_token_mentions u self t = []"
proof -
  have "set (occurrences u t) = {}" using assms by (simp add: occurrences_set)
  then show ?thesis by (simp add: extract_token_mentions_occurrences)
qed

lemma too_short_no_run: "\<not> has_dollar_run (ascii ''$A is too short'')"
  by (simp add: has_dollar_run_def dollar_run_at_def ascii_def is_upper_def)

text \<open>
  C8. A text that contains no dollar-prefixed run of 3 to 10 uppercase letters, in either
  reading, yields the empty list; the text \<^verbatim>\<open>$A is too short\<close> contains none and yields
  the empty list.
\<close>

theorem extract_token_mentions_no_run:
  "(\<not> has_dollar_run t \<longrightarrow> extract_token_mentions u self t = [])
   \<and> (\<not> has_maximal_dollar_run t \<longrightarrow> extract_token_mentions u self t = [])
   \<and> \<not> has_dollar_run (ascii ''$A is too short'')
   \<and> extract_token_mentions u self (ascii ''$A is too short'') = []"
proof (intro conjI impI)
  assume "\<not> has_dollar_run t"
  then have "\<not> mention_at u t s n" for s n
    using mention_at_dollar_run[of u t s n] by (auto simp: has_dollar_run_iff)
  then show "extract_token_mentions u self t = []" by (rule no_occurrences)
next
  assume "\<not> has_maximal_dollar_run t"
  then have "\<not> mention_at u t s n" for s n
    using mention_at_maximal_run[of u t s n] by blast
  then show "extract_token_mentions u self t = []" by (rule no_occurrences)
next
  show "\<not> has_dollar_run (ascii ''$A is too short'')" by (rule too_short_no_run)
next
  have "\<not> mention_at u (ascii ''$A is too short'') s n" for s n
    using mention_at_dollar_run[of u _ s n] too_short_no_run by (auto simp: has_dollar_run_iff)
  then show "extract_token_mentions u self (ascii ''$A is too short'') = []"
    by (rule no_occurrences)
qed

theorem extract_token_mentions_no_run_witness:
  "\<not> has_dollar_run (ascii ''cash: $ab and $AB, no ticker'')
   \<and> \<not> has_maximal_dollar_run (ascii ''$ABCDEFGHIJKL is too long'')
   \<and> extract_token_mentions ascii_only (init_scraper [] []) (ascii ''cash: $ab and $AB, no ticker'') = []
   \<and> extract_token_mentions ascii_only (init_scraper [] []) (ascii ''$ABCDEFGHIJKL is too long'') = []"
proof -
  have 1: "\<not> has_dollar_run (ascii ''cash: $ab and $AB, no ticker'')"
    by (simp add: has_dollar_run_def dollar_run_at_def ascii_def is_upper_def)
  have 2: "\<not> has_maximal_dollar_run (ascii ''$ABCDEFGHIJKL is too long'')"
    by (simp add: has_maximal_dollar_run_def upper_run_def ascii_def is_upper_def)
  from 1 extract_token_mentions_no_run[of "ascii ''cash: $ab and $AB, no ticker''" ascii_only "init_scraper [] []"]
  have 3: "extract_token_mentions ascii_only (init_scraper [] []) (ascii ''cash: $ab and $AB, no ticker'') = []"
    by blast
  from 2 extract_token_mentions_no_run[of "ascii ''$ABCDEFGHIJKL is too long''" ascii_only "init_scraper [] []"]
  have 4: "extract_token_mentions ascii_only (init_scraper [] []) (ascii ''$ABCDEFGHIJKL is too long'') = []"
    by blast
  from 1 2 3 4 show ?thesis by blast
qed

section \<open>The claims about the pipeline\<close>

text \<open>The two fetchers, with the call of \<open>requests.get\<close> unfolded.\<close>

lemma requests_get_simps:
  "fst (requests_get rq w) = upstream w (length (sent w))"
  "snd (requests_get rq w) = w\<lparr>sent := sent w @ [rq]\<rparr>"
  by (simp_all add: requests_get_def)









end
